theory Spec2Isabelle
  imports Main "HOL-Library.Sublist"
begin

section \<open>Errors\<close>

text \<open>
  The exceptions the modelled code can raise. \<open>IndexError\<close> is what the linked lists raise
  on an empty container (the error kind the specification calls EmptyContainer),
  \<open>KeyError\<close> is a failed dictionary lookup, and \<open>RecursionError\<close> is what the
  interpreter raises when a call would exceed its limit on nested calls.
\<close>

datatype error = IndexError | KeyError | RecursionError

section \<open>Binary search tree (tree.py)\<close>

text \<open>
  A value of type \<open>'a bstnode\<close> is what the Python annotates as \<open>_BSTNode[T] | None\<close>:
  \<open>NoNode\<close> is \<open>None\<close>, and \<open>BSTNode v l r\<close> is a node with the fields \<open>value\<close>,
  \<open>left\<close> and \<open>right\<close> in the order of the dataclass. Nodes are owned by their parent
  and never shared, so the tree is a value.
\<close>

datatype 'a bstnode = NoNode | BSTNode 'a "'a bstnode" "'a bstnode"

record 'a bst =
  bst_root :: "'a bstnode"
  bst_size :: int

definition bst_empty :: "'a bst" where
  "bst_empty = \<lparr>bst_root = NoNode, bst_size = 0\<rparr>"

text \<open>
  The loop of \<open>BinarySearchTree.insert\<close>, as a recursion on the node the loop stands at.
  The result is the rebuilt node and whether a new leaf was attached (the branches that
  run \<open>self._size += 1\<close>). An empty root is the same case as an empty child slot. The
  source is a \<open>while\<close> loop, so no depth of tree makes it fail.
\<close>

fun insert_at :: "'a::linorder \<Rightarrow> 'a bstnode \<Rightarrow> 'a bstnode \<times> bool" where
  "insert_at v NoNode = (BSTNode v NoNode NoNode, True)"
| "insert_at v (BSTNode x l r) =
     (if v < x then (case insert_at v l of (l', b) \<Rightarrow> (BSTNode x l' r, b))
      else if v > x then (case insert_at v r of (r', b) \<Rightarrow> (BSTNode x l r', b))
      else (BSTNode x l r, False))"

definition bst_insert :: "'a::linorder bst \<Rightarrow> 'a \<Rightarrow> 'a bst" where
  "bst_insert t v =
     (case insert_at v (bst_root t) of
        (n, b) \<Rightarrow> \<lparr>bst_root = n, bst_size = (if b then bst_size t + 1 else bst_size t)\<rparr>)"

fun contains_at :: "'a::linorder \<Rightarrow> 'a bstnode \<Rightarrow> bool" where
  "contains_at v NoNode = False"
| "contains_at v (BSTNode x l r) =
     (if v < x then contains_at v l
      else if v > x then contains_at v r
      else True)"

definition bst_contains :: "'a::linorder bst \<Rightarrow> 'a \<Rightarrow> bool" where
  "bst_contains t v = contains_at v (bst_root t)"

text \<open>
  The traversals are generators whose inner function \<open>walk\<close> calls itself once per level
  of the tree, also on an empty child. The first argument of each \<open>walk\<close> below is the
  number of nested calls the interpreter still allows (its recursion limit less the
  calls already on the stack): a call made when none is left raises \<open>RecursionError\<close>.
  The result is what consuming the whole generator gives, as \<open>list(self.in_order())\<close>
  in \<open>__repr__\<close> does: the list of the values yielded, or the error.
\<close>

fun walk_in :: "nat \<Rightarrow> 'a bstnode \<Rightarrow> error + 'a list" where
  "walk_in 0 node = Inl RecursionError"
| "walk_in (Suc d) NoNode = Inr []"
| "walk_in (Suc d) (BSTNode x l r) =
     (case walk_in d l of
        Inl e \<Rightarrow> Inl e
      | Inr ls \<Rightarrow> (case walk_in d r of Inl e \<Rightarrow> Inl e | Inr rs \<Rightarrow> Inr (ls @ [x] @ rs)))"

fun walk_pre :: "nat \<Rightarrow> 'a bstnode \<Rightarrow> error + 'a list" where
  "walk_pre 0 node = Inl RecursionError"
| "walk_pre (Suc d) NoNode = Inr []"
| "walk_pre (Suc d) (BSTNode x l r) =
     (case walk_pre d l of
        Inl e \<Rightarrow> Inl e
      | Inr ls \<Rightarrow> (case walk_pre d r of Inl e \<Rightarrow> Inl e | Inr rs \<Rightarrow> Inr ([x] @ ls @ rs)))"

fun walk_post :: "nat \<Rightarrow> 'a bstnode \<Rightarrow> error + 'a list" where
  "walk_post 0 node = Inl RecursionError"
| "walk_post (Suc d) NoNode = Inr []"
| "walk_post (Suc d) (BSTNode x l r) =
     (case walk_post d l of
        Inl e \<Rightarrow> Inl e
      | Inr ls \<Rightarrow> (case walk_post d r of Inl e \<Rightarrow> Inl e | Inr rs \<Rightarrow> Inr (ls @ rs @ [x])))"

text \<open>
  Each traversal method is itself a generator, so it takes one of the \<open>avail\<close> calls
  still allowed and leaves the rest to \<open>walk\<close>.
\<close>

definition in_order :: "nat \<Rightarrow> 'a bst \<Rightarrow> error + 'a list" where
  "in_order avail t =
     (case avail of 0 \<Rightarrow> Inl RecursionError | Suc d \<Rightarrow> walk_in d (bst_root t))"

definition pre_order :: "nat \<Rightarrow> 'a bst \<Rightarrow> error + 'a list" where
  "pre_order avail t =
     (case avail of 0 \<Rightarrow> Inl RecursionError | Suc d \<Rightarrow> walk_pre d (bst_root t))"

definition post_order :: "nat \<Rightarrow> 'a bst \<Rightarrow> error + 'a list" where
  "post_order avail t =
     (case avail of 0 \<Rightarrow> Inl RecursionError | Suc d \<Rightarrow> walk_post d (bst_root t))"

definition bst_len :: "'a bst \<Rightarrow> int" where
  "bst_len t = bst_size t"

text \<open>
  Proof-level notions: the values of a tree from left to right, its height, the
  search-tree ordering of section 3 of the specification, and the tree that consists of
  right children only.
\<close>

fun values_in :: "'a bstnode \<Rightarrow> 'a list" where
  "values_in NoNode = []"
| "values_in (BSTNode x l r) = values_in l @ [x] @ values_in r"

fun height :: "'a bstnode \<Rightarrow> nat" where
  "height NoNode = 0"
| "height (BSTNode x l r) = Suc (max (height l) (height r))"

fun bst_ok :: "'a::linorder bstnode \<Rightarrow> bool" where
  "bst_ok NoNode = True"
| "bst_ok (BSTNode x l r) =
     ((\<forall>y \<in> set (values_in l). y < x) \<and> (\<forall>y \<in> set (values_in r). x < y) \<and> bst_ok l \<and> bst_ok r)"

fun spine :: "'a list \<Rightarrow> 'a bstnode" where
  "spine [] = NoNode"
| "spine (x # xs) = BSTNode x NoNode (spine xs)"

text \<open>The integers from 0 up to \<open>n - 1\<close> in ascending order, as \<open>range(n)\<close> gives them.\<close>

definition ascending :: "nat \<Rightarrow> int list" where
  "ascending n = map int [0..<n]"

subsection \<open>When the in-order traversal returns, and what\<close>

lemma walk_in_shallow: "height n < d \<Longrightarrow> walk_in d n = Inr (values_in n)"
proof (induction d n rule: walk_in.induct)
  case (1 node)
  then show ?case by simp
next
  case (2 d)
  show ?case by simp
next
  case (3 d x l r)
  from "3.prems" have hl: "height l < d" and hr: "height r < d" by simp_all
  have l: "walk_in d l = Inr (values_in l)" using "3.IH"(1) hl by simp
  have r: "walk_in d r = Inr (values_in r)" using "3.IH"(2) [OF l] hr by simp
  show ?case by (simp add: l r)
qed

lemma walk_in_deep: "d \<le> height n \<Longrightarrow> walk_in d n = Inl RecursionError"
proof (induction d n rule: walk_in.induct)
  case (1 node)
  show ?case by simp
next
  case (2 d)
  then show ?case by simp
next
  case (3 d x l r)
  from "3.prems" have "d \<le> height l \<or> d \<le> height r" by auto
  then show ?case
  proof
    assume "d \<le> height l"
    then have "walk_in d l = Inl RecursionError" using "3.IH"(1) by simp
    then show ?thesis by simp
  next
    assume hr: "d \<le> height r"
    show ?thesis
    proof (cases "walk_in d l")
      case (Inl e)
      then have "d \<le> height l"
        using walk_in_shallow [of l d] by (cases "height l < d") simp_all
      then have "walk_in d l = Inl RecursionError" using "3.IH"(1) by simp
      then show ?thesis by simp
    next
      case (Inr ls)
      have "walk_in d r = Inl RecursionError" using "3.IH"(2) [OF Inr] hr by simp
      with Inr show ?thesis by simp
    qed
  qed
qed

subsection \<open>Insertion keeps the ordering and counts distinct values\<close>

lemma set_insert_at: "set (values_in (fst (insert_at v n))) = insert v (set (values_in n))"
  by (induction n) (auto simp: case_prod_beta)

lemma bst_ok_insert_at: "bst_ok n \<Longrightarrow> bst_ok (fst (insert_at v n))"
proof (induction n)
  case NoNode
  show ?case by simp
next
  case (BSTNode x l r)
  have l: "set (values_in (fst (insert_at v l))) = insert v (set (values_in l))"
    and r: "set (values_in (fst (insert_at v r))) = insert v (set (values_in r))"
    by (rule set_insert_at)+
  from BSTNode show ?case
    by (auto simp: case_prod_beta l r)
qed

lemma length_insert_at:
  "length (values_in (fst (insert_at v n)))
     = length (values_in n) + (if snd (insert_at v n) then 1 else 0)"
  by (induction n) (simp_all add: case_prod_beta)

lemma sorted_values_in: "bst_ok n \<Longrightarrow> sorted_wrt (<) (values_in n)"
  by (induction n) (auto simp: sorted_wrt_append intro: less_trans)

lemma bst_root_insert: "bst_root (bst_insert t v) = fst (insert_at v (bst_root t))"
  by (simp add: bst_insert_def case_prod_beta)

lemma bst_size_insert:
  "bst_size (bst_insert t v) = bst_size t + (if snd (insert_at v (bst_root t)) then 1 else 0)"
  by (simp add: bst_insert_def case_prod_beta)

lemma foldl_insert_inv:
  "bst_ok (bst_root (foldl bst_insert bst_empty vs))
   \<and> set (values_in (bst_root (foldl bst_insert bst_empty vs))) = set vs
   \<and> bst_size (foldl bst_insert bst_empty vs)
       = int (length (values_in (bst_root (foldl bst_insert bst_empty vs))))"
proof (induction vs rule: rev_induct)
  case Nil
  show ?case by (simp add: bst_empty_def)
next
  case (snoc v vs)
  let ?t = "foldl bst_insert bst_empty vs"
  from snoc have ok: "bst_ok (bst_root ?t)"
    and st: "set (values_in (bst_root ?t)) = set vs"
    and sz: "bst_size ?t = int (length (values_in (bst_root ?t)))"
    by simp_all
  have "bst_ok (bst_root (bst_insert ?t v))"
    using ok by (simp add: bst_root_insert bst_ok_insert_at)
  moreover have "set (values_in (bst_root (bst_insert ?t v))) = set (vs @ [v])"
    using st by (simp add: bst_root_insert set_insert_at)
  moreover have "bst_size (bst_insert ?t v)
      = int (length (values_in (bst_root (bst_insert ?t v))))"
    using sz by (simp add: bst_root_insert bst_size_insert length_insert_at)
  ultimately show ?case by simp
qed

text \<open>
  Whatever was inserted: \<open>len()\<close> is the number of distinct values, and when the tree is
  shallow enough for the calls still allowed, \<open>in_order\<close> returns exactly that many
  values in strictly increasing order.
\<close>

lemma bst_len_counts_distinct:
  fixes vs :: "'a::linorder list"
  shows "bst_len (foldl bst_insert bst_empty vs) = int (card (set vs))"
proof -
  let ?t = "foldl bst_insert bst_empty vs"
  have inv: "bst_ok (bst_root ?t)" "set (values_in (bst_root ?t)) = set vs"
    "bst_size ?t = int (length (values_in (bst_root ?t)))"
    using foldl_insert_inv [of vs] by simp_all
  have "distinct (values_in (bst_root ?t))"
    using sorted_values_in [OF inv(1)] by (simp add: strict_sorted_iff)
  then have "length (values_in (bst_root ?t)) = card (set vs)"
    using inv(2) distinct_card by fastforce
  then show ?thesis using inv(3) by (simp add: bst_len_def)
qed

lemma in_order_shallow:
  fixes vs :: "'a::linorder list"
  assumes "Suc (height (bst_root (foldl bst_insert bst_empty vs))) < avail"
  shows "\<exists>xs. in_order avail (foldl bst_insert bst_empty vs) = Inr xs
    \<and> sorted xs \<and> sorted_wrt (<) xs \<and> length xs = card (set vs)"
proof -
  let ?t = "foldl bst_insert bst_empty vs"
  obtain d where d: "avail = Suc d" using assms by (cases avail) simp_all
  have inv: "bst_ok (bst_root ?t)" "set (values_in (bst_root ?t)) = set vs"
    using foldl_insert_inv [of vs] by simp_all
  have "walk_in d (bst_root ?t) = Inr (values_in (bst_root ?t))"
    using assms d by (simp add: walk_in_shallow)
  then have r: "in_order avail ?t = Inr (values_in (bst_root ?t))"
    by (simp add: in_order_def d)
  have s: "sorted_wrt (<) (values_in (bst_root ?t))"
    by (rule sorted_values_in [OF inv(1)])
  then have sd: "sorted (values_in (bst_root ?t))" "distinct (values_in (bst_root ?t))"
    by (simp_all add: strict_sorted_iff)
  have "length (values_in (bst_root ?t)) = card (set vs)"
    using sd(2) inv(2) distinct_card by fastforce
  with r s sd(1) show ?thesis by simp
qed

subsection \<open>Ascending input builds a tree as deep as it is long\<close>

lemma insert_at_spine:
  "\<forall>x \<in> set xs. x < v \<Longrightarrow> insert_at v (spine xs) = (spine (xs @ [v]), True)"
  by (induction xs) (auto dest: less_asym)

lemma contains_at_spine:
  "sorted_wrt (<) xs \<Longrightarrow> contains_at v (spine xs) = (v \<in> set xs)"
  by (induction xs) (auto dest: less_asym)

lemma height_spine: "height (spine xs) = length xs"
  by (induction xs) simp_all

lemma foldl_insert_ascending:
  "sorted_wrt (<) vs \<Longrightarrow>
     foldl bst_insert bst_empty vs = \<lparr>bst_root = spine vs, bst_size = int (length vs)\<rparr>"
proof (induction vs rule: rev_induct)
  case Nil
  show ?case by (simp add: bst_empty_def)
next
  case (snoc v vs)
  from snoc.prems have s: "sorted_wrt (<) vs" and lt: "\<forall>x \<in> set vs. x < v"
    by (simp_all add: sorted_wrt_append)
  have t: "foldl bst_insert bst_empty vs = \<lparr>bst_root = spine vs, bst_size = int (length vs)\<rparr>"
    by (rule snoc.IH [OF s])
  have "foldl bst_insert bst_empty (vs @ [v]) = bst_insert (foldl bst_insert bst_empty vs) v"
    by simp
  also have "\<dots> = bst_insert \<lparr>bst_root = spine vs, bst_size = int (length vs)\<rparr> v"
    by (simp only: t)
  also have "\<dots> = \<lparr>bst_root = spine (vs @ [v]), bst_size = int (length (vs @ [v]))\<rparr>"
    by (simp add: bst_insert_def insert_at_spine [OF lt])
  finally show ?case .
qed

lemma in_order_ascending_fails:
  assumes "sorted_wrt (<) vs" and "avail \<le> Suc (length vs)"
  shows "in_order avail (foldl bst_insert bst_empty vs) = Inl RecursionError"
proof (cases avail)
  case 0
  then show ?thesis by (simp add: in_order_def)
next
  case (Suc d)
  with assms(2) have "d \<le> height (spine vs)" by (simp add: height_spine)
  then have "walk_in d (spine vs) = Inl RecursionError" by (rule walk_in_deep)
  then show ?thesis
    by (simp add: in_order_def Suc foldl_insert_ascending [OF assms(1)])
qed

lemma ascending_sorted: "sorted_wrt (<) (ascending n)"
  by (simp add: ascending_def sorted_wrt_map)

lemma length_ascending: "length (ascending n) = n"
  by (simp add: ascending_def)

lemma last_in_ascending:
  assumes "0 < n"
  shows "int (n - 1) \<in> set (ascending n)"
proof -
  from assms have "n - 1 \<in> {0..<n}" by simp
  then have "int (n - 1) \<in> int ` {0..<n}" by (rule imageI)
  then show ?thesis by (simp only: ascending_def set_map set_upt)
qed

lemma ascending_run:
  assumes "avail \<le> Suc n" and "0 < n"
  shows "in_order avail (foldl bst_insert bst_empty (ascending n)) = Inl RecursionError
    \<and> bst_len (foldl bst_insert bst_empty (ascending n)) = int n
    \<and> bst_contains (foldl bst_insert bst_empty (ascending n)) (int (n - 1))"
proof -
  note a = ascending_sorted [of n]
  have "in_order avail (foldl bst_insert bst_empty (ascending n)) = Inl RecursionError"
    by (rule in_order_ascending_fails [OF a]) (simp add: length_ascending assms(1))
  moreover have "bst_len (foldl bst_insert bst_empty (ascending n)) = int n"
    by (simp add: foldl_insert_ascending [OF a] bst_len_def length_ascending)
  moreover have "bst_contains (foldl bst_insert bst_empty (ascending n)) (int (n - 1))"
    using last_in_ascending [OF assms(2)]
    by (simp add: bst_contains_def foldl_insert_ascending [OF a] contains_at_spine [OF a])
  ultimately show ?thesis by simp
qed

text \<open>
  Claim C1. For every finite sequence of values inserted into a BinarySearchTree,
  \<open>in_order\<close> is to yield a non-decreasing sequence with as many values as there are
  distinct values inserted, which is also \<open>len()\<close>. The code does not: after the
  integers 0 to 999 are inserted in this order, \<open>len()\<close> is 1000 and \<open>contains(999)\<close>
  holds, but the tree is 1000 nodes deep and \<open>in_order\<close> raises \<open>RecursionError\<close>
  under the interpreter's limit of 1000 nested calls, even with all of them still
  available.
\<close>

theorem bst_in_order_recursion_error_on_ascending_input:
  "in_order 1000 (foldl bst_insert bst_empty (ascending 1000)) = Inl RecursionError
   \<and> bst_len (foldl bst_insert bst_empty (ascending 1000)) = 1000
   \<and> bst_contains (foldl bst_insert bst_empty (ascending 1000)) 999"
  using ascending_run [of 1000 1000] by simp

section \<open>Trie (advanced.py)\<close>

text \<open>
  A \<open>_TrieNode\<close> has the fields \<open>children\<close>, a dictionary from a character to the child
  node, and \<open>is_end\<close>. Child nodes are owned by their parent and never shared, so a node
  is a value. The characters of a word are the elements of a list.
\<close>

datatype 'c trienode = TrieNode "'c \<Rightarrow> 'c trienode option" bool

record 'c trie =
  trie_root :: "'c trienode"
  trie_size :: int

definition trie_empty :: "'c trie" where
  "trie_empty = \<lparr>trie_root = TrieNode Map.empty False, trie_size = 0\<rparr>"

text \<open>
  The loop of \<open>Trie.insert\<close>, as a recursion on the rest of the word and the node the
  loop stands at: \<open>setdefault\<close> takes the child that is there or stores a fresh node.
  After the last character the node is marked; the boolean result says whether it was
  newly marked (the branch that runs \<open>self._size += 1\<close>).
\<close>

fun trie_insert_at :: "'c list \<Rightarrow> 'c trienode \<Rightarrow> 'c trienode \<times> bool" where
  "trie_insert_at [] (TrieNode children is_end) = (TrieNode children True, \<not> is_end)"
| "trie_insert_at (ch # w) (TrieNode children is_end) =
     (case trie_insert_at w
             (case children ch of None \<Rightarrow> TrieNode Map.empty False | Some n \<Rightarrow> n) of
        (n', b) \<Rightarrow> (TrieNode (children(ch \<mapsto> n')) is_end, b))"

definition trie_insert :: "'c trie \<Rightarrow> 'c list \<Rightarrow> 'c trie" where
  "trie_insert t w =
     (case trie_insert_at w (trie_root t) of
        (n, b) \<Rightarrow> \<lparr>trie_root = n, trie_size = (if b then trie_size t + 1 else trie_size t)\<rparr>)"

fun search_at :: "'c list \<Rightarrow> 'c trienode \<Rightarrow> bool" where
  "search_at [] (TrieNode children is_end) = is_end"
| "search_at (ch # w) (TrieNode children is_end) =
     (case children ch of None \<Rightarrow> False | Some n \<Rightarrow> search_at w n)"

fun starts_with_at :: "'c list \<Rightarrow> 'c trienode \<Rightarrow> bool" where
  "starts_with_at [] (TrieNode children is_end) = True"
| "starts_with_at (ch # w) (TrieNode children is_end) =
     (case children ch of None \<Rightarrow> False | Some n \<Rightarrow> starts_with_at w n)"

definition trie_search :: "'c trie \<Rightarrow> 'c list \<Rightarrow> bool" where
  "trie_search t w = search_at w (trie_root t)"

definition trie_starts_with :: "'c trie \<Rightarrow> 'c list \<Rightarrow> bool" where
  "trie_starts_with t p = starts_with_at p (trie_root t)"

definition trie_len :: "'c trie \<Rightarrow> int" where
  "trie_len t = trie_size t"

subsection \<open>What an insertion changes\<close>

lemma search_at_fresh: "search_at p (TrieNode Map.empty False) = False"
  by (cases p) simp_all

lemma starts_with_at_fresh: "starts_with_at p (TrieNode Map.empty False) = (p = [])"
  by (cases p) simp_all

lemma search_at_insert:
  "search_at p (fst (trie_insert_at w n)) = (p = w \<or> search_at p n)"
proof (induction w arbitrary: n p)
  case Nil
  obtain children e where n: "n = TrieNode children e" by (cases n)
  show ?case by (cases p) (simp_all add: n)
next
  case (Cons c cs)
  obtain children e where n: "n = TrieNode children e" by (cases n)
  show ?case
  proof (cases p)
    case Nil
    then show ?thesis by (simp add: n case_prod_beta)
  next
    case (Cons d ps)
    show ?thesis
    proof (cases "d = c")
      case False
      then show ?thesis by (simp add: n Cons case_prod_beta)
    next
      case True
      show ?thesis
      proof (cases "children c")
        case None
        then show ?thesis
          by (simp add: n Cons True case_prod_beta Cons.IH search_at_fresh)
      next
        case (Some m)
        then show ?thesis
          by (simp add: n Cons True case_prod_beta Cons.IH)
      qed
    qed
  qed
qed

lemma starts_with_at_insert:
  "starts_with_at p (fst (trie_insert_at w n)) = (prefix p w \<or> starts_with_at p n)"
proof (induction w arbitrary: n p)
  case Nil
  obtain children e where n: "n = TrieNode children e" by (cases n)
  show ?case by (cases p) (simp_all add: n)
next
  case (Cons c cs)
  obtain children e where n: "n = TrieNode children e" by (cases n)
  show ?case
  proof (cases p)
    case Nil
    then show ?thesis by (simp add: n case_prod_beta)
  next
    case (Cons d ps)
    show ?thesis
    proof (cases "d = c")
      case False
      then show ?thesis by (simp add: n Cons case_prod_beta)
    next
      case True
      show ?thesis
      proof (cases "children c")
        case None
        then show ?thesis
          by (auto simp: n Cons True case_prod_beta Cons.IH starts_with_at_fresh)
      next
        case (Some m)
        then show ?thesis
          by (simp add: n Cons True case_prod_beta Cons.IH)
      qed
    qed
  qed
qed

lemma snd_trie_insert_at: "snd (trie_insert_at w n) = (\<not> search_at w n)"
proof (induction w arbitrary: n)
  case Nil
  show ?case by (cases n) simp
next
  case (Cons c cs)
  obtain children e where n: "n = TrieNode children e" by (cases n)
  show ?case
    by (cases "children c") (simp_all add: n Cons.IH search_at_fresh case_prod_beta)
qed

lemma trie_insert_at_twice:
  "trie_insert_at w (fst (trie_insert_at w n)) = (fst (trie_insert_at w n), False)"
proof (induction w arbitrary: n)
  case Nil
  show ?case by (cases n) simp
next
  case (Cons c cs)
  obtain children e where n: "n = TrieNode children e" by (cases n)
  show ?case
    by (cases "children c") (simp_all add: n Cons.IH case_prod_beta)
qed

lemma trie_root_insert: "trie_root (trie_insert t w) = fst (trie_insert_at w (trie_root t))"
  by (simp add: trie_insert_def case_prod_beta)

lemma trie_size_insert:
  "trie_size (trie_insert t w) = (if trie_search t w then trie_size t else trie_size t + 1)"
  by (simp add: trie_insert_def case_prod_beta snd_trie_insert_at trie_search_def)

lemma trie_search_insert: "trie_search (trie_insert t w) p = (p = w \<or> trie_search t p)"
  by (simp add: trie_search_def trie_root_insert search_at_insert)

lemma trie_starts_with_insert:
  "trie_starts_with (trie_insert t w) p = (prefix p w \<or> trie_starts_with t p)"
  by (simp add: trie_starts_with_def trie_root_insert starts_with_at_insert)

lemma trie_search_foldl:
  "trie_search (foldl trie_insert t ws) p = (p \<in> set ws \<or> trie_search t p)"
proof (induction ws arbitrary: t)
  case Nil
  show ?case by simp
next
  case (Cons w ws)
  show ?case using Cons.IH [of "trie_insert t w"]
    by (simp add: trie_search_insert) blast
qed

lemma trie_starts_with_foldl:
  "trie_starts_with (foldl trie_insert t ws) p
     = ((\<exists>w \<in> set ws. prefix p w) \<or> trie_starts_with t p)"
proof (induction ws arbitrary: t)
  case Nil
  show ?case by simp
next
  case (Cons w ws)
  show ?case using Cons.IH [of "trie_insert t w"]
    by (simp add: trie_starts_with_insert) blast
qed

lemma trie_search_empty: "trie_search trie_empty p = False"
  by (simp add: trie_search_def trie_empty_def search_at_fresh)

lemma trie_starts_with_nil: "trie_starts_with t [] = True"
  by (cases "trie_root t") (simp add: trie_starts_with_def)

lemma trie_insert_twice: "trie_insert (trie_insert t w) w = trie_insert t w"
  by (simp add: trie_insert_def trie_insert_at_twice case_prod_beta)


text \<open>
  Claim C5. For every trie built from the empty one by any sequence \<open>ws\<close> of \<open>insert\<close>
  calls: \<open>starts_with(p)\<close> is true for every prefix \<open>p\<close> of every inserted word (the word
  itself included), and \<open>search(p)\<close> is true exactly for the words \<open>p\<close> that were
  inserted, so not for a proper prefix of a stored word unless it was inserted too.
\<close>

theorem trie_prefix_law:
  "(\<forall>w \<in> set ws. \<forall>p. prefix p w \<longrightarrow> trie_starts_with (foldl trie_insert trie_empty ws) p)
   \<and> (\<forall>p. trie_search (foldl trie_insert trie_empty ws) p = (p \<in> set ws))"
proof -
  have "\<forall>p. trie_search (foldl trie_insert trie_empty ws) p = (p \<in> set ws)"
    by (simp add: trie_search_foldl trie_search_empty)
  moreover have
    "\<forall>w \<in> set ws. \<forall>p. prefix p w \<longrightarrow> trie_starts_with (foldl trie_insert trie_empty ws) p"
    unfolding trie_starts_with_foldl by blast
  ultimately show ?thesis by blast
qed

theorem trie_prefix_law_witness:
  "trie_search (foldl trie_insert trie_empty [''apple'', ''app'']) ''app''
   \<and> \<not> trie_search (foldl trie_insert trie_empty [''apple'', ''app'']) ''appl''
   \<and> trie_starts_with (foldl trie_insert trie_empty [''apple'', ''app'']) ''ap''
   \<and> trie_starts_with (foldl trie_insert trie_empty [''apple'', ''app'']) ''apple''"
proof -
  let ?t = "foldl trie_insert trie_empty [''apple'', ''app'']"
  note law = trie_prefix_law [of "[''apple'', ''app'']"]
  have st: "\<And>w p. w \<in> set [''apple'', ''app''] \<Longrightarrow> prefix p w \<Longrightarrow> trie_starts_with ?t p"
    using law by blast
  have se: "\<And>p. trie_search ?t p = (p \<in> set [''apple'', ''app''])"
    using law by blast
  have m: "''apple'' \<in> set [''apple'', ''app'']" by simp
  have 1: "trie_search ?t ''app''" unfolding se by simp
  have 2: "\<not> trie_search ?t ''appl''" unfolding se by simp
  have 3: "trie_starts_with ?t ''ap''" by (rule st [OF m]) simp
  have 4: "trie_starts_with ?t ''apple''" by (rule st [OF m]) simp
  from 1 2 3 4 show ?thesis by blast
qed

text \<open>
  Claim C10. In every trie state \<open>t\<close>, the freshly constructed empty trie included,
  \<open>starts_with\<close> of the empty string returns true; \<open>search\<close> of the empty string
  returns false on a fresh trie, and on a trie built by a sequence \<open>ws\<close> of \<open>insert\<close>
  calls it returns true exactly when the empty string is among the words inserted.
\<close>

theorem trie_empty_string_queries:
  fixes t :: "'c trie" and ws :: "'c list list"
  shows "trie_starts_with t []
   \<and> trie_starts_with (trie_empty :: 'c trie) []
   \<and> \<not> trie_search (trie_empty :: 'c trie) []
   \<and> trie_search (foldl trie_insert trie_empty ws) [] = ([] \<in> set ws)"
  by (simp add: trie_starts_with_nil trie_search_empty trie_search_foldl)

theorem trie_empty_string_queries_witness:
  "trie_starts_with (foldl trie_insert trie_empty [''app'']) []
   \<and> \<not> trie_search (foldl trie_insert trie_empty [''app'']) []
   \<and> trie_search (foldl trie_insert trie_empty [''app'', []]) []"
proof -
  have a: "trie_starts_with (foldl trie_insert trie_empty [''app'']) []"
    using trie_empty_string_queries [of "foldl trie_insert trie_empty [''app'']" "[]"]
    by blast
  have b: "\<not> trie_search (foldl trie_insert trie_empty [''app'']) []"
    using trie_empty_string_queries [of "trie_empty :: char trie" "[''app'']"] by simp
  have c: "trie_search (foldl trie_insert trie_empty [''app'', []]) []"
    using trie_empty_string_queries [of "trie_empty :: char trie" "[''app'', []]"] by simp
  from a b c show ?thesis by blast
qed

subsection \<open>Inserting again\<close>

lemma insert_at_twice: "insert_at v (fst (insert_at v n)) = (fst (insert_at v n), False)"
  by (induction n) (simp_all add: case_prod_beta)

lemma bst_insert_twice: "bst_insert (bst_insert t v) v = bst_insert t v"
  by (simp add: bst_insert_def insert_at_twice case_prod_beta)

lemma insert_at_present:
  "bst_ok n \<Longrightarrow> v \<in> set (values_in n) \<Longrightarrow> insert_at v n = (n, False)"
proof (induction n)
  case NoNode
  then show ?case by simp
next
  case (BSTNode x l r)
  show ?case
  proof (cases "v < x")
    case True
    with BSTNode.prems have "v \<in> set (values_in l)" by (auto dest: less_asym)
    with BSTNode show ?thesis by (simp add: True)
  next
    case False
    show ?thesis
    proof (cases "x < v")
      case True
      with BSTNode.prems have "v \<in> set (values_in r)" by (auto dest: less_asym)
      with BSTNode \<open>\<not> v < x\<close> show ?thesis by simp
    next
      case False
      with \<open>\<not> v < x\<close> show ?thesis by simp
    qed
  qed
qed

lemma bst_insert_present:
  fixes vs :: "'a::linorder list"
  assumes "v \<in> set vs"
  shows "bst_insert (foldl bst_insert bst_empty vs) v = foldl bst_insert bst_empty vs"
proof -
  let ?t = "foldl bst_insert bst_empty vs"
  have inv: "bst_ok (bst_root ?t)" "set (values_in (bst_root ?t)) = set vs"
    using foldl_insert_inv [of vs] by simp_all
  have "insert_at v (bst_root ?t) = (bst_root ?t, False)"
    using inv assms by (simp add: insert_at_present)
  then show ?thesis by (simp add: bst_insert_def)
qed

lemma trie_size_empty: "trie_size trie_empty = 0"
  by (simp add: trie_empty_def)

lemma trie_insert_at_present: "search_at w n \<Longrightarrow> trie_insert_at w n = (n, False)"
proof (induction w arbitrary: n)
  case Nil
  then show ?case by (cases n) simp
next
  case (Cons c cs)
  obtain children e where n: "n = TrieNode children e" by (cases n)
  from Cons.prems obtain m where m: "children c = Some m" and s: "search_at cs m"
    by (cases "children c") (simp_all add: n)
  have "children(c \<mapsto> m) = children" using m by (rule map_upd_triv)
  then show ?case by (simp add: n m Cons.IH [OF s])
qed

lemma trie_insert_present:
  assumes "w \<in> set ws"
  shows "trie_insert (foldl trie_insert trie_empty ws) w = foldl trie_insert trie_empty ws"
proof -
  let ?t = "foldl trie_insert trie_empty ws"
  have "trie_search ?t w" using assms by (simp add: trie_search_foldl)
  then have "trie_insert_at w (trie_root ?t) = (trie_root ?t, False)"
    by (simp add: trie_search_def trie_insert_at_present)
  then show ?thesis by (simp add: trie_insert_def)
qed

text \<open>
  Claim C6. Inserting a value into a BinarySearchTree a second time, or a word into a
  Trie a second time, changes nothing: in any state \<open>t\<close> (\<open>tr\<close>), the state after two
  insertions of the same value (word) is the state after the first, and so are the
  size, the three traversals (whatever the number \<open>avail\<close> of nested calls still
  allowed) and the answers of \<open>contains\<close>, \<open>search\<close> and \<open>starts_with\<close>. The same holds
  when other insertions came in between: inserting a value (word) that is among those
  already inserted leaves the state as it is.
\<close>

theorem insert_again_changes_nothing:
  fixes t :: "'a::linorder bst" and vs :: "'a list" and tr :: "'c trie" and ws :: "'c list list"
  shows "bst_insert (bst_insert t v) v = bst_insert t v
    \<and> bst_len (bst_insert (bst_insert t v) v) = bst_len (bst_insert t v)
    \<and> in_order avail (bst_insert (bst_insert t v) v) = in_order avail (bst_insert t v)
    \<and> pre_order avail (bst_insert (bst_insert t v) v) = pre_order avail (bst_insert t v)
    \<and> post_order avail (bst_insert (bst_insert t v) v) = post_order avail (bst_insert t v)
    \<and> bst_contains (bst_insert (bst_insert t v) v) x = bst_contains (bst_insert t v) x
    \<and> trie_insert (trie_insert tr w) w = trie_insert tr w
    \<and> trie_len (trie_insert (trie_insert tr w) w) = trie_len (trie_insert tr w)
    \<and> trie_search (trie_insert (trie_insert tr w) w) p = trie_search (trie_insert tr w) p
    \<and> trie_starts_with (trie_insert (trie_insert tr w) w) p
        = trie_starts_with (trie_insert tr w) p
    \<and> (u \<in> set vs \<longrightarrow>
          bst_insert (foldl bst_insert bst_empty vs) u = foldl bst_insert bst_empty vs)
    \<and> (q \<in> set ws \<longrightarrow>
          trie_insert (foldl trie_insert trie_empty ws) q = foldl trie_insert trie_empty ws)"
  by (simp only: bst_insert_twice trie_insert_twice simp_thms)
     (simp add: bst_insert_present trie_insert_present)

theorem insert_again_changes_nothing_witness:
  "bst_insert (foldl bst_insert bst_empty [10, 5, 15, 12, 18 :: int]) 5
     = foldl bst_insert bst_empty [10, 5, 15, 12, 18]
   \<and> bst_len (bst_insert (foldl bst_insert bst_empty [10, 5, 15, 12, 18 :: int]) 5) = 5
   \<and> in_order 1000 (bst_insert (foldl bst_insert bst_empty [10, 5, 15, 12, 18 :: int]) 5)
       = Inr [5, 10, 12, 15, 18]
   \<and> trie_insert (foldl trie_insert trie_empty [''apple'', ''app'']) ''apple''
       = foldl trie_insert trie_empty [''apple'', ''app'']
   \<and> trie_len (trie_insert (foldl trie_insert trie_empty [''apple'', ''app'']) ''apple'') = 2"
proof -
  note inst = insert_again_changes_nothing
    [where vs = "[10, 5, 15, 12, 18 :: int]" and u = 5
       and ws = "[''apple'', ''app'']" and q = "''apple''"]
  have u: "(5::int) \<in> set [10, 5, 15, 12, 18]" by simp
  have q: "''apple'' \<in> set [''apple'', ''app'']" by simp
  have b: "bst_insert (foldl bst_insert bst_empty [10, 5, 15, 12, 18 :: int]) 5
      = foldl bst_insert bst_empty [10, 5, 15, 12, 18]"
    using inst u by blast
  have t: "trie_insert (foldl trie_insert trie_empty [''apple'', ''app'']) ''apple''
      = foldl trie_insert trie_empty [''apple'', ''app'']"
    using inst q by blast
  have l: "bst_len (foldl bst_insert bst_empty [10, 5, 15, 12, 18 :: int]) = 5"
    by code_simp
  have i: "in_order 1000 (foldl bst_insert bst_empty [10, 5, 15, 12, 18 :: int])
      = Inr [5, 10, 12, 15, 18]"
    by code_simp
  have s: "trie_len (foldl trie_insert trie_empty [''apple'', ''app'']) = 2"
    by (simp add: trie_len_def trie_size_insert trie_search_insert trie_search_empty
        trie_size_empty)
  show ?thesis
    by (simp only: b t l i s simp_thms)
qed

section \<open>Disjoint set (advanced.py)\<close>

text \<open>
  The two dictionaries of a \<open>DisjointSet\<close>: \<open>_parent\<close> and \<open>_rank\<close>.
\<close>

record 'a dsu =
  dsu_parent :: "'a \<rightharpoonup> 'a"
  dsu_rank :: "'a \<rightharpoonup> int"

definition dsu_empty :: "'a dsu" where
  "dsu_empty = \<lparr>dsu_parent = Map.empty, dsu_rank = Map.empty\<rparr>"

text \<open>A subscript read \<open>d[k]\<close> of a dictionary raises \<open>KeyError\<close> on a missing key.\<close>

definition lookup :: "('k \<rightharpoonup> 'v) \<Rightarrow> 'k \<Rightarrow> error + 'v" where
  "lookup m k = (case m k of None \<Rightarrow> Inl KeyError | Some v \<Rightarrow> Inr v)"

definition make_set :: "'a dsu \<Rightarrow> 'a \<Rightarrow> 'a dsu" where
  "make_set s item =
     (if dsu_parent s item = None
      then s\<lparr>dsu_parent := (dsu_parent s)(item \<mapsto> item), dsu_rank := (dsu_rank s)(item \<mapsto> 0)\<rparr>
      else s)"

text \<open>
  \<open>find\<close> calls itself once per link of the parent chain. Its first argument is the
  number of nested calls the interpreter still allows; a call made when none is left
  raises \<open>RecursionError\<close>. The state is returned in every case, since what was written
  before an exception stays written.
\<close>

fun dsu_find :: "nat \<Rightarrow> 'a dsu \<Rightarrow> 'a \<Rightarrow> 'a dsu \<times> (error + 'a)" where
  "dsu_find 0 s item = (s, Inl RecursionError)"
| "dsu_find (Suc d) s item =
     (let s1 = (if dsu_parent s item = None then make_set s item else s) in
      case dsu_parent s1 item of
        None \<Rightarrow> (s1, Inl KeyError)
      | Some parent \<Rightarrow>
          if parent \<noteq> item then
            (case dsu_find d s1 parent of
               (s2, Inl e) \<Rightarrow> (s2, Inl e)
             | (s2, Inr r) \<Rightarrow>
                 (let s3 = s2\<lparr>dsu_parent := (dsu_parent s2)(item \<mapsto> r)\<rparr>
                  in (s3, lookup (dsu_parent s3) item)))
          else (s1, lookup (dsu_parent s1) item))"

text \<open>
  \<open>union\<close> is itself a call, and makes its two \<open>find\<close> calls one level deeper.
\<close>

fun dsu_union :: "nat \<Rightarrow> 'a dsu \<Rightarrow> 'a \<Rightarrow> 'a \<Rightarrow> 'a dsu \<times> (error + unit)" where
  "dsu_union 0 s a b = (s, Inl RecursionError)"
| "dsu_union (Suc d) s a b =
     (case dsu_find d s a of
        (s1, Inl e) \<Rightarrow> (s1, Inl e)
      | (s1, Inr ra) \<Rightarrow>
          (case dsu_find d s1 b of
             (s2, Inl e) \<Rightarrow> (s2, Inl e)
           | (s2, Inr rb) \<Rightarrow>
               if ra = rb then (s2, Inr ())
               else
                 (case lookup (dsu_rank s2) ra of
                    Inl e \<Rightarrow> (s2, Inl e)
                  | Inr ka \<Rightarrow>
                      (case lookup (dsu_rank s2) rb of
                         Inl e \<Rightarrow> (s2, Inl e)
                       | Inr kb \<Rightarrow>
                           if ka < kb then
                             (s2\<lparr>dsu_parent := (dsu_parent s2)(ra \<mapsto> rb)\<rparr>, Inr ())
                           else if ka > kb then
                             (s2\<lparr>dsu_parent := (dsu_parent s2)(rb \<mapsto> ra)\<rparr>, Inr ())
                           else
                             (s2\<lparr>dsu_parent := (dsu_parent s2)(rb \<mapsto> ra),
                                 dsu_rank := (dsu_rank s2)(ra \<mapsto> ka + 1)\<rparr>, Inr ())))))"

text \<open>
  The items \<open>find\<close> visits from an item, following at most \<open>d\<close> parent links, and
  whether a root (or an item not yet registered) is reached within \<open>d\<close> links.
\<close>

fun chain :: "nat \<Rightarrow> ('a \<rightharpoonup> 'a) \<Rightarrow> 'a \<Rightarrow> 'a list" where
  "chain 0 par x = [x]"
| "chain (Suc d) par x =
     (case par x of None \<Rightarrow> [x] | Some p \<Rightarrow> if p = x then [x] else x # chain d par p)"



subsection \<open>The three cases of find\<close>

lemma find_unknown:
  "dsu_parent s item = None \<Longrightarrow> dsu_find (Suc k) s item = (make_set s item, Inr item)"
  by (simp add: dsu_find.simps make_set_def lookup_def)

lemma find_root:
  "dsu_parent s item = Some item \<Longrightarrow> dsu_find (Suc k) s item = (s, Inr item)"
  by (simp add: dsu_find.simps lookup_def)

lemma find_step:
  "dsu_parent s item = Some p \<Longrightarrow> p \<noteq> item \<Longrightarrow>
   dsu_find (Suc k) s item =
     (case dsu_find k s p of
        (s2, Inl e) \<Rightarrow> (s2, Inl e)
      | (s2, Inr r) \<Rightarrow> (s2\<lparr>dsu_parent := (dsu_parent s2)(item \<mapsto> r)\<rparr>, Inr r))"
  by (simp add: dsu_find.simps lookup_def Let_def split: prod.split sum.split)

declare dsu_find.simps [simp del]

lemma chain_nonempty: "chain d par x \<noteq> []"
  by (cases d) (simp_all split: option.split)

lemma hd_chain: "hd (chain d par x) = x"
  by (cases d) (simp_all split: option.split)

text \<open>What a returning find has done, as a function of the state before.\<close>

lemma find_returns:
  assumes "dsu_find (Suc k) s item = (s', Inr r)"
  shows "r = last (chain k (dsu_parent s) item)
    \<and> (\<forall>y. dsu_parent s' y
          = (if y \<in> set (chain k (dsu_parent s) item) then Some r else dsu_parent s y))
    \<and> (\<forall>y. dsu_rank s' y
          = (if y \<in> set (chain k (dsu_parent s) item) \<and> dsu_parent s y = None then Some 0
             else dsu_rank s y))"
  using assms
proof (induction k arbitrary: s item s' r)
  case 0
  show ?case
  proof (cases "dsu_parent s item")
    case None
    with 0 have "s' = make_set s item" "r = item" by (auto simp: find_unknown)
    with None show ?thesis by (simp add: make_set_def)
  next
    case (Some p)
    show ?thesis
    proof (cases "p = item")
      case True
      with Some 0 have "s' = s" "r = item" by (auto simp: find_root)
      with Some True show ?thesis by simp
    next
      case False
      with Some 0 show ?thesis by (simp add: find_step dsu_find.simps(1))
    qed
  qed
next
  case (Suc k)
  show ?case
  proof (cases "dsu_parent s item")
    case None
    with Suc.prems have "s' = make_set s item" "r = item" by (auto simp: find_unknown)
    with None show ?thesis by (simp add: make_set_def)
  next
    case (Some p)
    show ?thesis
    proof (cases "p = item")
      case True
      with Some Suc.prems have "s' = s" "r = item" by (auto simp: find_root)
      with Some True show ?thesis by simp
    next
      case False
      obtain s2 res where f: "dsu_find (Suc k) s p = (s2, res)" by (cases "dsu_find (Suc k) s p")
      from Suc.prems have
        "(case dsu_find (Suc k) s p of
            (s2, Inl e) \<Rightarrow> (s2, Inl e)
          | (s2, Inr r) \<Rightarrow> (s2\<lparr>dsu_parent := (dsu_parent s2)(item \<mapsto> r)\<rparr>, Inr r))
         = (s', Inr r)"
        by (simp only: find_step [OF Some False])
      with f have res: "res = Inr r" and s': "s' = s2\<lparr>dsu_parent := (dsu_parent s2)(item \<mapsto> r)\<rparr>"
        by (cases res; simp)+
      from f res have f': "dsu_find (Suc k) s p = (s2, Inr r)" by simp
      note ih = Suc.IH [OF f']
      have c: "chain (Suc k) (dsu_parent s) item = item # chain k (dsu_parent s) p"
        using Some False by simp
      have l: "last (chain (Suc k) (dsu_parent s) item) = last (chain k (dsu_parent s) p)"
        using Some False by (simp add: chain_nonempty)
      show ?thesis
        using ih Some False by (simp add: s' chain_nonempty)
    qed
  qed
qed


lemma find_root_is_root:
  assumes "dsu_find (Suc k) s item = (s', Inr r)"
  shows "dsu_parent s' r = Some r" and "dsu_parent s' item = Some r"
proof -
  note fr = find_returns [OF assms]
  have "r \<in> set (chain k (dsu_parent s) item)"
    using fr chain_nonempty [of k "dsu_parent s" item] by simp
  with fr show "dsu_parent s' r = Some r" by simp
  have "item \<in> set (chain k (dsu_parent s) item)"
    using hd_chain [of k "dsu_parent s" item] chain_nonempty [of k "dsu_parent s" item]
    by (metis hd_in_set)
  with fr show "dsu_parent s' item = Some r" by simp
qed

lemma chain_end_last:
  "y \<in> set (chain k par x) \<Longrightarrow> par y = None \<or> par y = Some y \<Longrightarrow> y = last (chain k par x)"
proof (induction k arbitrary: x)
  case 0
  then show ?case by simp
next
  case (Suc k)
  show ?case
  proof (cases "par x")
    case None
    with Suc.prems show ?thesis by simp
  next
    case (Some p)
    show ?thesis
    proof (cases "p = x")
      case True
      with Some Suc.prems show ?thesis by simp
    next
      case False
      with Some Suc.prems(1) have "y = x \<or> y \<in> set (chain k par p)" by simp
      then have "y \<in> set (chain k par p)"
        using Suc.prems(2) Some False by auto
      then have "y = last (chain k par p)" using Suc.IH Suc.prems(2) by blast
      with Some False show ?thesis by (simp add: chain_nonempty)
    qed
  qed
qed

lemma find_keeps_roots:
  assumes "dsu_find (Suc k) s item = (s', Inr r)" and "dsu_parent s y = Some y"
  shows "dsu_parent s' y = Some y"
proof (cases "y \<in> set (chain k (dsu_parent s) item)")
  case True
  then have "y = last (chain k (dsu_parent s) item)"
    using assms(2) by (simp add: chain_end_last)
  then have "y = r" using find_returns [OF assms(1)] by simp
  then show ?thesis using find_root_is_root(1) [OF assms(1)] by simp
next
  case False
  then show ?thesis using find_returns [OF assms(1)] assms(2) by simp
qed







subsection \<open>Union, given what its two finds returned\<close>

lemma union_after_finds:
  assumes "dsu_find k s a = (s1, Inr ra)" and "dsu_find k s1 b = (s2, Inr rb)"
  shows "dsu_union (Suc k) s a b =
     (if ra = rb then (s2, Inr ())
      else (case lookup (dsu_rank s2) ra of
              Inl e \<Rightarrow> (s2, Inl e)
            | Inr ka \<Rightarrow>
                (case lookup (dsu_rank s2) rb of
                   Inl e \<Rightarrow> (s2, Inl e)
                 | Inr kb \<Rightarrow>
                     if ka < kb then
                       (s2\<lparr>dsu_parent := (dsu_parent s2)(ra \<mapsto> rb)\<rparr>, Inr ())
                     else if ka > kb then
                       (s2\<lparr>dsu_parent := (dsu_parent s2)(rb \<mapsto> ra)\<rparr>, Inr ())
                     else
                       (s2\<lparr>dsu_parent := (dsu_parent s2)(rb \<mapsto> ra),
                           dsu_rank := (dsu_rank s2)(ra \<mapsto> ka + 1)\<rparr>, Inr ()))))"
  by (simp add: assms)


lemma union_roots:
  assumes "dsu_find (Suc k) s a = (s1, Inr ra)" and "dsu_find (Suc k) s1 b = (s2, Inr rb)"
  shows "dsu_parent s2 ra = Some ra" and "dsu_parent s2 rb = Some rb"
proof -
  have "dsu_parent s1 ra = Some ra" by (rule find_root_is_root(1) [OF assms(1)])
  then show "dsu_parent s2 ra = Some ra" by (rule find_keeps_roots [OF assms(2)])
  show "dsu_parent s2 rb = Some rb" by (rule find_root_is_root(1) [OF assms(2)])
qed






text \<open>
  Claim C9. When the two roots found by \<open>union(a, b)\<close> differ and have the same rank,
  the root \<open>ra\<close> of \<open>a\<close> always becomes the new root: it stays its own parent, the root
  \<open>rb\<close> of \<open>b\<close> gets \<open>ra\<close> as its parent, the rank of \<open>ra\<close> goes up by one, and nothing
  else changes. The root of \<open>b\<close> never becomes the new root.
\<close>

theorem union_tie_first_root_wins:
  assumes "dsu_find (avail - 1) s a = (s1, Inr ra)"
    and "dsu_find (avail - 1) s1 b = (s2, Inr rb)"
    and "ra \<noteq> rb"
    and "dsu_rank s2 ra = Some k" and "dsu_rank s2 rb = Some k"
  shows "\<exists>s'. dsu_union avail s a b = (s', Inr ())
    \<and> dsu_parent s' ra = Some ra
    \<and> dsu_parent s' rb = Some ra
    \<and> dsu_parent s' rb \<noteq> Some rb
    \<and> dsu_rank s' ra = Some (k + 1)
    \<and> dsu_rank s' rb = Some k
    \<and> (\<forall>y. y \<noteq> rb \<longrightarrow> dsu_parent s' y = dsu_parent s2 y)
    \<and> (\<forall>y. y \<noteq> ra \<longrightarrow> dsu_rank s' y = dsu_rank s2 y)"
proof -
  from assms(1) obtain j where j: "avail - 1 = Suc j"
    by (cases "avail - 1") (simp_all add: dsu_find.simps(1))
  then have av: "avail = Suc (Suc j)" by simp
  from assms(1,2) j have f1: "dsu_find (Suc j) s a = (s1, Inr ra)"
    and f2: "dsu_find (Suc j) s1 b = (s2, Inr rb)" by simp_all
  have root: "dsu_parent s2 ra = Some ra" by (rule union_roots(1) [OF f1 f2])
  have u: "dsu_union avail s a b
      = (s2\<lparr>dsu_parent := (dsu_parent s2)(rb \<mapsto> ra),
            dsu_rank := (dsu_rank s2)(ra \<mapsto> k + 1)\<rparr>, Inr ())"
    unfolding av union_after_finds [OF f1 f2] using assms(3-5) by (simp add: lookup_def)
  show ?thesis
    unfolding u using root assms(3-5) by simp
qed

theorem union_tie_first_root_wins_witness:
  "\<exists>s'. dsu_union 3 dsu_empty (1::int) 2 = (s', Inr ())
    \<and> dsu_parent s' 1 = Some 1 \<and> dsu_parent s' 2 = Some 1
    \<and> dsu_rank s' 1 = Some 1 \<and> dsu_rank s' 2 = Some 0"
proof -
  have n: "(3::nat) - 1 = Suc (Suc 0)" by simp
  have f1: "dsu_find (3 - 1) dsu_empty (1::int) = (make_set dsu_empty 1, Inr 1)"
    unfolding n by (rule find_unknown) (simp add: dsu_empty_def)
  have f2: "dsu_find (3 - 1) (make_set dsu_empty 1) (2::int)
      = (make_set (make_set dsu_empty 1) 2, Inr 2)"
    unfolding n by (rule find_unknown) (simp add: dsu_empty_def make_set_def)
  have k1: "dsu_rank (make_set (make_set dsu_empty 1) 2) (1::int) = Some 0"
    and k2: "dsu_rank (make_set (make_set dsu_empty 1) 2) (2::int) = Some 0"
    by (simp_all add: dsu_empty_def make_set_def)
  have ne: "(1::int) \<noteq> 2" by simp
  from union_tie_first_root_wins [OF f1 f2 ne k1 k2]
  obtain s' where "dsu_union 3 dsu_empty (1::int) 2 = (s', Inr ())"
    "dsu_parent s' 1 = Some 1" "dsu_parent s' 2 = Some 1"
    "dsu_rank s' 1 = Some (0 + 1)" "dsu_rank s' 2 = Some 0"
    by (elim exE conjE) blast
  then show ?thesis by (intro exI [of _ s']) simp
qed

end
